theory Spec2Isabelle
  imports Main "HOL-Library.Multiset" "HOL-Library.Product_Lexorder"
begin

section \<open>Python values used by PDFScramble\<close>

text \<open>
  Exceptions of the Python source are values of \<open>error\<close>; a function that can raise
  returns \<open>error + 'a\<close> with \<open>Inl\<close> for the exception. \<open>Untyped\<close> is no exception of
  Python: it marks a run in which the source stores a value that is not an integer in the
  field \<open>chapter_page\<close>, declared \<open>int\<close>, and which the typed pages below cannot hold.
\<close>

datatype error = ValueError | TypeError | IndexError | KeyError | Untyped

text \<open>
  What \<open>json.load\<close> returns. JSON numbers with a fraction or an exponent (Python
  floats) are not modelled. An object is the list of its items in insertion order.
\<close>

datatype json =
    JNull
  | JBool bool
  | JInt int
  | JStr string
  | JList "json list"
  | JObj "(string \<times> json) list"

subsection \<open>Characters\<close>

text \<open>
  A character is a code point from U+0000 to U+00FF, and the classes below are those of
  Python on these code points: \<open>\d\<close> is a digit \<open>0\<close>..\<open>9\<close>; \<open>\w\<close> is a character that
  \<open>str.isalnum\<close> accepts, or the underscore; \<open>\W\<close> is every other character. Text
  with a code point above U+00FF is outside the model.
\<close>

definition is_digit :: "char \<Rightarrow> bool" where
  "is_digit c = (48 \<le> (of_char c :: nat) \<and> (of_char c :: nat) \<le> 57)"

definition is_alpha :: "char \<Rightarrow> bool" where
  "is_alpha c = ((65 \<le> (of_char c :: nat) \<and> (of_char c :: nat) \<le> 90) \<or>
                 (97 \<le> (of_char c :: nat) \<and> (of_char c :: nat) \<le> 122))"

text \<open>
  The alphanumeric characters from U+0080 to U+00FF: the ordinal indicators, the
  superscript digits, the micro sign, the vulgar fractions and the letters (all of
  U+00C0..U+00FF but the multiplication and the division sign).
\<close>

definition is_latin1_alnum :: "char \<Rightarrow> bool" where
  "is_latin1_alnum c =
     ((of_char c :: nat) = 170 \<or> (of_char c :: nat) = 178 \<or> (of_char c :: nat) = 179 \<or>
      (of_char c :: nat) = 181 \<or> (of_char c :: nat) = 185 \<or> (of_char c :: nat) = 186 \<or>
      (188 \<le> (of_char c :: nat) \<and> (of_char c :: nat) \<le> 190) \<or>
      (192 \<le> (of_char c :: nat) \<and> (of_char c :: nat) \<le> 214) \<or>
      (216 \<le> (of_char c :: nat) \<and> (of_char c :: nat) \<le> 246) \<or>
      248 \<le> (of_char c :: nat))"

definition is_word :: "char \<Rightarrow> bool" where
  "is_word c = (is_digit c \<or> is_alpha c \<or> c = CHR ''_'' \<or> is_latin1_alnum c)"

text \<open>
  The characters that \<open>int\<close> strips from both ends of a string: tab to carriage return,
  the space, U+0085 and U+00A0.
\<close>

definition is_space :: "char \<Rightarrow> bool" where
  "is_space c =
     ((of_char c :: nat) = 32 \<or> (9 \<le> (of_char c :: nat) \<and> (of_char c :: nat) \<le> 13) \<or>
      (of_char c :: nat) = 133 \<or> (of_char c :: nat) = 160)"

definition digit_val :: "char \<Rightarrow> nat" where
  "digit_val c = (of_char c :: nat) - 48"

subsection \<open>The builtin \<open>int\<close>\<close>

text \<open>The value of a string of decimal digits, most significant digit first.\<close>

definition digits_val :: "string \<Rightarrow> nat" where
  "digits_val ds = foldl (\<lambda>acc c. 10 * acc + digit_val c) 0 ds"

text \<open>
  The digits of a decimal literal: one or more digits, where a single underscore may
  stand between two digits. \<open>None\<close> when the string is not of that shape.
\<close>

fun literal_digits :: "string \<Rightarrow> string option" where
  "literal_digits [] = None"
| "literal_digits [c] = (if is_digit c then Some [c] else None)"
| "literal_digits (c # d # cs) =
     (if is_digit c then
        (if d = CHR ''_'' then map_option (Cons c) (literal_digits cs)
         else map_option (Cons c) (literal_digits (d # cs)))
      else None)"

definition strip :: "string \<Rightarrow> string" where
  "strip s = rev (dropWhile is_space (rev (dropWhile is_space s)))"

text \<open>
  The default of \<open>sys.int_max_str_digits\<close>, which the source leaves as it is: \<open>int\<close>
  raises ValueError on a literal with more digits (underscores are not counted, leading
  zeros are).
\<close>

definition int_max_str_digits :: nat where
  "int_max_str_digits = 4300"

definition literal_value :: "string \<Rightarrow> error + nat" where
  "literal_value s =
     (case literal_digits s of
        None \<Rightarrow> Inl ValueError
      | Some ds \<Rightarrow>
          if int_max_str_digits < length ds then Inl ValueError else Inr (digits_val ds))"

text \<open>\<open>int(s)\<close> for a string: surrounding whitespace, an optional sign, a decimal literal.\<close>

definition py_int_str :: "string \<Rightarrow> error + int" where
  "py_int_str s =
     (case strip s of
        [] \<Rightarrow> Inl ValueError
      | c # cs \<Rightarrow>
          if c = CHR ''-'' then
            (case literal_value cs of Inl e \<Rightarrow> Inl e | Inr n \<Rightarrow> Inr (- int n))
          else if c = CHR ''+'' then
            (case literal_value cs of Inl e \<Rightarrow> Inl e | Inr n \<Rightarrow> Inr (int n))
          else
            (case literal_value (c # cs) of Inl e \<Rightarrow> Inl e | Inr n \<Rightarrow> Inr (int n)))"

text \<open>\<open>int(v)\<close> for a value read from JSON.\<close>

fun py_int :: "json \<Rightarrow> error + int" where
  "py_int (JInt n) = Inr n"
| "py_int (JBool b) = Inr (if b then 1 else 0)"
| "py_int (JStr s) = py_int_str s"
| "py_int JNull = Inl TypeError"
| "py_int (JList xs) = Inl TypeError"
| "py_int (JObj kvs) = Inl TypeError"

subsection \<open>List operations\<close>

text \<open>\<open>xs.index(x)\<close>: the first position of \<open>x\<close>; \<open>None\<close> is Python's ValueError.\<close>

fun list_index :: "'a list \<Rightarrow> 'a \<Rightarrow> nat option" where
  "list_index [] x = None"
| "list_index (y # ys) x = (if y = x then Some 0 else map_option Suc (list_index ys x))"

text \<open>\<open>xs.pop(i)\<close> for \<open>0 \<le> i < len(xs)\<close>: the list without its \<open>i\<close>-th element.\<close>

definition pop :: "'a list \<Rightarrow> nat \<Rightarrow> 'a list" where
  "pop xs i = take i xs @ drop (Suc i) xs"

text \<open>
  \<open>xs.insert(i, x)\<close>: a negative position counts from the end, and a position beyond
  either end is clamped to it.
\<close>

definition py_insert :: "'a list \<Rightarrow> int \<Rightarrow> 'a \<Rightarrow> 'a list" where
  "py_insert xs i x =
     (let n = int (length xs);
          j = (if i < 0 then max 0 (i + n) else min i n)
      in take (nat j) xs @ [x] @ drop (nat j) xs)"

section \<open>ManualScrambler: the move list\<close>

type_synonym move = "int \<times> int"

text \<open>
  The first loop of \<open>ManualScrambler.rearrange\<close>: every item of the JSON object becomes a
  pair \<open>(orig_page, after_page)\<close> after the range checks; a page moved after itself is
  dropped.
\<close>

fun normalize :: "int \<Rightarrow> (string \<times> json) list \<Rightarrow> move list \<Rightarrow> error + move list" where
  "normalize page_count [] moves = Inr moves"
| "normalize page_count ((k, v) # raw) moves =
     (case py_int_str k of
        Inl e \<Rightarrow> Inl e
      | Inr orig_page \<Rightarrow>
          (case py_int v of
             Inl e \<Rightarrow> Inl e
           | Inr after_page \<Rightarrow>
               if \<not> (1 \<le> orig_page \<and> orig_page \<le> page_count) then Inl ValueError
               else if \<not> (1 \<le> after_page \<and> after_page \<le> page_count) then Inl ValueError
               else if orig_page = after_page then normalize page_count raw moves
               else normalize page_count raw (moves @ [(orig_page, after_page)])))"

text \<open>
  The body of the second loop, for one move. \<open>orig_page in order\<close> holds exactly when
  \<open>order.index(orig_page)\<close> finds a position, so both are the one lookup here. The
  \<open>except ValueError\<close> branch is the \<open>None\<close> case of the second lookup.
\<close>

definition move_step :: "int list \<Rightarrow> move \<Rightarrow> int list" where
  "move_step order m =
     (case m of (orig_page, after_page) \<Rightarrow>
        (case list_index order orig_page of
           None \<Rightarrow> order
         | Some cur_idx \<Rightarrow>
             (let order1 = pop order cur_idx;
                  after_idx = (case list_index order1 after_page of
                                 Some i \<Rightarrow> int i
                               | None \<Rightarrow> int (length order1) - 1);
                  insert_pos = after_idx + 1
              in py_insert order1 insert_pos orig_page)))"

definition sort_moves :: "move list \<Rightarrow> move list" where
  "sort_moves moves = sort_key (\<lambda>x. (snd x, fst x)) moves"

definition apply_moves :: "int \<Rightarrow> move list \<Rightarrow> int list" where
  "apply_moves page_count moves = foldl move_step [1..page_count] moves"

text \<open>
  \<open>ManualScrambler.rearrange\<close> up to the order it hands to the page copier; \<open>raw\<close> is
  the items of the JSON object.
\<close>

definition rearrange :: "int \<Rightarrow> (string \<times> json) list \<Rightarrow> error + int list" where
  "rearrange page_count raw =
     (case normalize page_count raw [] of
        Inl e \<Rightarrow> Inl e
      | Inr moves \<Rightarrow> Inr (apply_moves page_count (sort_moves moves)))"

section \<open>Scrambler: pages and their classification\<close>

text \<open>
  The value of the field \<open>chapter\<close> of a page: an integer or the literal \<open>S\<close>. The
  field itself is \<open>chap\<close> below.
\<close>

datatype chapter_label = Numeric int | Supplement

record Page =
  index :: int
  failed :: bool
  chap :: chapter_label
  chapter_page :: int

subsection \<open>The label pattern\<close>

text \<open>
  The two patterns of the source use character classes (\<open>\d\<close>, \<open>\W\<close>, a literal
  character), greedy repetition of a class (\<open>*\<close>, \<open>+\<close>) and one kind of capturing
  group, an alternation of sequences. \<open>re\<close> matches by backtracking: each function
  below returns every way to match in the order backtracking tries them, so the head of
  the list is the match \<open>re\<close> reports.
\<close>

datatype cclass = Digit | NonWord | Lit char

fun in_class :: "cclass \<Rightarrow> char \<Rightarrow> bool" where
  "in_class Digit c = is_digit c"
| "in_class NonWord c = (\<not> is_word c)"
| "in_class (Lit l) c = (c = l)"

datatype item = One cclass | Star cclass | Plus cclass

datatype node = Item item | Group "item list list"

type_synonym pattern = "node list"

text \<open>A greedy repetition tries the longest run first, then gives characters back.\<close>

definition splits_from :: "nat \<Rightarrow> cclass \<Rightarrow> string \<Rightarrow> (string \<times> string) list" where
  "splits_from lo cl s =
     (let n = length (takeWhile (in_class cl) s)
      in map (\<lambda>k. (take k s, drop k s)) (rev [lo..<Suc n]))"

fun item_m :: "item \<Rightarrow> string \<Rightarrow> (string \<times> string) list" where
  "item_m (One cl) [] = []"
| "item_m (One cl) (c # cs) = (if in_class cl c then [([c], cs)] else [])"
| "item_m (Star cl) s = splits_from 0 cl s"
| "item_m (Plus cl) s = splits_from 1 cl s"

fun seq_m :: "item list \<Rightarrow> string \<Rightarrow> (string \<times> string) list" where
  "seq_m [] s = [([], s)]"
| "seq_m (i # is) s =
     concat (map (\<lambda>(a, r). map (\<lambda>(b, r'). (a @ b, r')) (seq_m is r)) (item_m i s))"

definition alt_m :: "item list list \<Rightarrow> string \<Rightarrow> (string \<times> string) list" where
  "alt_m alts s = concat (map (\<lambda>alt. seq_m alt s) alts)"

text \<open>The matches of a whole pattern at the start of \<open>s\<close>: the captured groups and the rest.\<close>

fun pat_m :: "pattern \<Rightarrow> string \<Rightarrow> (string list \<times> string) list" where
  "pat_m [] s = [([], s)]"
| "pat_m (Item i # ns) s = concat (map (\<lambda>(a, r). pat_m ns r) (item_m i s))"
| "pat_m (Group alts # ns) s =
     concat (map (\<lambda>(a, r). map (\<lambda>(caps, r'). (a # caps, r')) (pat_m ns r)) (alt_m alts s))"

definition match_at :: "pattern \<Rightarrow> string \<Rightarrow> (string list \<times> string) option" where
  "match_at pat s = (case pat_m pat s of [] \<Rightarrow> None | m # _ \<Rightarrow> Some m)"

text \<open>
  \<open>pattern.findall(s)\<close>: the groups of the non-overlapping matches, scanning from the
  left. After a match the scan resumes where the match ended; without one it moves one
  character on. Neither pattern of the source matches the empty string; a match that
  consumed nothing is recorded and the scan moves one character on.
\<close>

function findall :: "pattern \<Rightarrow> string \<Rightarrow> string list list" where
  "findall pat s =
     (case match_at pat s of
        Some (caps, rest) \<Rightarrow>
          if length rest < length s then caps # findall pat rest
          else caps # (case s of [] \<Rightarrow> [] | _ # t \<Rightarrow> findall pat t)
      | None \<Rightarrow> (case s of [] \<Rightarrow> [] | _ # t \<Rightarrow> findall pat t))"
  by pat_completeness auto
termination
  by (relation "measure (\<lambda>(pat, s). length s)") auto

declare findall.simps [simp del]

text \<open>\<open>(\d+|S|\$)\W*\-\W*(\d+)\W*\<close>, the pattern of the text pass.\<close>

definition page_num_pattern :: pattern where
  "page_num_pattern =
     [Group [[Plus Digit], [One (Lit CHR ''S'')], [One (Lit CHR ''$'')]],
      Item (Star NonWord), Item (One (Lit CHR ''-'')), Item (Star NonWord),
      Group [[Plus Digit]], Item (Star NonWord)]"

text \<open>\<open>(\d+|S)\W*\-\W*(\d+)\W*\<close>, the pattern of the OCR pass.\<close>

definition ocr_page_num_pattern :: pattern where
  "ocr_page_num_pattern =
     [Group [[Plus Digit], [One (Lit CHR ''S'')]],
      Item (Star NonWord), Item (One (Lit CHR ''-'')), Item (Star NonWord),
      Group [[Plus Digit]], Item (Star NonWord)]"

subsection \<open>The text pass\<close>

text \<open>
  The page built from the groups \<open>numbs\<close> of a match; \<open>markers\<close> are the chapter
  tokens read as the supplement (\<open>S\<close> and \<open>$\<close> in the text pass, \<open>S\<close> in the OCR pass).
\<close>

definition page_of_match :: "string list \<Rightarrow> int \<Rightarrow> string list \<Rightarrow> error + Page" where
  "page_of_match markers i numbs =
     (let first = numbs ! 0 in
      case (if first \<in> set markers then Inr Supplement
            else map_sum id Numeric (py_int_str first)) of
        Inl e \<Rightarrow> Inl e
      | Inr ch \<Rightarrow>
          (case py_int_str (numbs ! 1) of
             Inl e \<Rightarrow> Inl e
           | Inr cp \<Rightarrow> Inr \<lparr>index = i, failed = False, chap = ch, chapter_page = cp\<rparr>))"

text \<open>
  The loop of \<open>_create_initial_page_list\<close> over the document. A page is given by what
  \<open>get_text()\<close> returned: \<open>Some text\<close> for a string, \<open>None\<close> for anything else. \<open>i\<close>
  is the number of the page at the head of the list.
\<close>

fun create_pages :: "int \<Rightarrow> string option list \<Rightarrow> Page list \<Rightarrow> error + Page list" where
  "create_pages i [] init_pages = Inr init_pages"
| "create_pages i (None # doc) init_pages = create_pages (i + 1) doc init_pages"
| "create_pages i (Some text # doc) init_pages =
     (let res = findall page_num_pattern text in
      if length res = 0 then
        create_pages (i + 1) doc
          (init_pages @ [\<lparr>index = i, failed = True, chap = Numeric 0, chapter_page = 0\<rparr>])
      else
        (case page_of_match [''S'', ''$''] i (last res) of
           Inl e \<Rightarrow> Inl e
         | Inr page_el \<Rightarrow> create_pages (i + 1) doc (init_pages @ [page_el])))"

definition create_initial_page_list :: "string option list \<Rightarrow> error + Page list" where
  "create_initial_page_list doc = create_pages 0 doc []"

subsection \<open>The OCR pass\<close>

text \<open>
  \<open>ocr\<close> gives the text recognised on the bottom fifth of the page with the given
  index. The loop replaces each failed page whose recognised text has a match.
\<close>

fun ocr_pages :: "(int \<Rightarrow> string) \<Rightarrow> Page list \<Rightarrow> error + Page list" where
  "ocr_pages ocr [] = Inr []"
| "ocr_pages ocr (page_el # pages) =
     (if \<not> failed page_el then map_sum id (Cons page_el) (ocr_pages ocr pages)
      else
        (let res = findall ocr_page_num_pattern (ocr (index page_el)) in
         if length res > 0 then
           (case page_of_match [''S''] (index page_el) (last res) of
              Inl e \<Rightarrow> Inl e
            | Inr new \<Rightarrow> map_sum id (Cons new) (ocr_pages ocr pages))
         else map_sum id (Cons page_el) (ocr_pages ocr pages)))"

definition ocr_failed_pages :: "bool \<Rightarrow> (int \<Rightarrow> string) \<Rightarrow> Page list \<Rightarrow> error + Page list" where
  "ocr_failed_pages has_ocr ocr init_pages =
     (if \<not> has_ocr then Inr init_pages else ocr_pages ocr init_pages)"

subsection \<open>Manual corrections\<close>

text \<open>\<open>value[i]\<close> for a value read from JSON; the keys of a JSON object are strings.\<close>

fun subscript :: "json \<Rightarrow> nat \<Rightarrow> error + json" where
  "subscript (JList xs) i = (if i < length xs then Inr (xs ! i) else Inl IndexError)"
| "subscript (JStr s) i = (if i < length s then Inr (JStr [s ! i]) else Inl IndexError)"
| "subscript (JObj kvs) i = Inl KeyError"
| "subscript JNull i = Inl TypeError"
| "subscript (JBool b) i = Inl TypeError"
| "subscript (JInt n) i = Inl TypeError"

text \<open>The conversion of \<open>value[0]\<close> to a chapter.\<close>

definition convert_chapter :: "json \<Rightarrow> error + chapter_label" where
  "convert_chapter c =
     (case c of
        JStr s \<Rightarrow> if s = ''S'' then Inr Supplement else map_sum id Numeric (py_int_str s)
      | _ \<Rightarrow> map_sum id Numeric (py_int c))"

text \<open>\<open>value[1]\<close> is stored as it is; the typed page holds it when it is an integer.\<close>

fun as_int :: "json \<Rightarrow> int option" where
  "as_int (JInt n) = Some n"
| "as_int (JBool b) = Some (if b then 1 else 0)"
| "as_int JNull = None"
| "as_int (JStr s) = None"
| "as_int (JList xs) = None"
| "as_int (JObj kvs) = None"

text \<open>The inner loop: the first page with the given index is replaced, then \<open>break\<close>.\<close>

fun update_page :: "Page list \<Rightarrow> int \<Rightarrow> Page \<Rightarrow> Page list" where
  "update_page [] page_index new = []"
| "update_page (page_el # pages) page_index new =
     (if index page_el = page_index then new # pages
      else page_el # update_page pages page_index new)"

fun manual_page_adjustments :: "(string \<times> json) list \<Rightarrow> Page list \<Rightarrow> error + Page list" where
  "manual_page_adjustments [] init_pages = Inr init_pages"
| "manual_page_adjustments ((key, val) # adjustments) init_pages =
     (case py_int_str key of
        Inl e \<Rightarrow> Inl e
      | Inr k \<Rightarrow>
          (let page_index = k - 1 in
           case subscript val 0 of
             Inl e \<Rightarrow> Inl e
           | Inr c \<Rightarrow>
               (case subscript val 1 of
                  Inl e \<Rightarrow> Inl e
                | Inr cp \<Rightarrow>
                    (case convert_chapter c of
                       Inl e \<Rightarrow> Inl e
                     | Inr ch \<Rightarrow>
                         (case as_int cp of
                            None \<Rightarrow> Inl Untyped
                          | Some n \<Rightarrow>
                              manual_page_adjustments adjustments
                                (update_page init_pages page_index
                                   \<lparr>index = page_index, failed = False, chap = ch,
                                    chapter_page = n\<rparr>))))))"

subsection \<open>The sort\<close>

text \<open>A component of the sort key: an integer or \<open>float("inf")\<close>, above every integer.\<close>

datatype keynum = Fin int | Inf

instantiation keynum :: linorder
begin

fun less_eq_keynum :: "keynum \<Rightarrow> keynum \<Rightarrow> bool" where
  "less_eq_keynum (Fin a) (Fin b) = (a \<le> b)"
| "less_eq_keynum (Fin a) Inf = True"
| "less_eq_keynum Inf (Fin b) = False"
| "less_eq_keynum Inf Inf = True"

definition less_keynum :: "keynum \<Rightarrow> keynum \<Rightarrow> bool" where
  "less_keynum x y = (x \<le> y \<and> \<not> y \<le> x)"

instance
proof
  fix x y z :: keynum
  show "(x < y) = (x \<le> y \<and> \<not> y \<le> x)" by (simp add: less_keynum_def)
  show "x \<le> x" by (cases x) simp_all
  show "x \<le> y \<Longrightarrow> y \<le> z \<Longrightarrow> x \<le> z" by (cases x; cases y; cases z) simp_all
  show "x \<le> y \<Longrightarrow> y \<le> x \<Longrightarrow> x = y" by (cases x; cases y) simp_all
  show "x \<le> y \<or> y \<le> x" by (cases x; cases y) auto
qed

end

definition sort_key_fn :: "Page \<Rightarrow> int \<times> keynum \<times> keynum \<times> int" where
  "sort_key_fn p =
     (if failed p then (1, Inf, Inf, index p)
      else
        (let chap_key = (case chap p of Numeric n \<Rightarrow> Fin n | Supplement \<Rightarrow> Inf)
         in (0, chap_key, Fin (chapter_page p), index p)))"

text \<open>\<open>sorted\<close> is stable, as \<open>sort_key\<close> is.\<close>

definition rearrange_page_list :: "Page list \<Rightarrow> Page list" where
  "rearrange_page_list init_pages = sort_key sort_key_fn init_pages"

section \<open>Properties of the move list\<close>

subsection \<open>List operations\<close>


lemma list_index_Some: "list_index xs x = Some i \<Longrightarrow> i < length xs \<and> xs ! i = x"
  by (induction xs arbitrary: i) (auto split: if_splits)

lemma mset_pop: "i < length xs \<Longrightarrow> add_mset (xs ! i) (mset (pop xs i)) = mset xs"
proof -
  assume "i < length xs"
  then have "xs = take i xs @ xs ! i # drop (Suc i) xs"
    by (rule id_take_nth_drop)
  then have "mset xs = mset (take i xs @ xs ! i # drop (Suc i) xs)"
    by simp
  then show ?thesis
    by (simp add: pop_def)
qed

lemma mset_py_insert: "mset (py_insert xs i x) = add_mset x (mset xs)"
proof -
  have "mset (take j xs) + mset (drop j xs) = mset xs" for j
    by (metis append_take_drop_id mset_append)
  then show ?thesis
    by (simp add: py_insert_def Let_def)
qed

lemma mset_move_step: "mset (move_step order m) = mset order"
  by (cases m)
     (auto simp: move_step_def Let_def mset_py_insert mset_pop
           split: option.splits dest!: list_index_Some)

lemma mset_foldl_move_step: "mset (foldl move_step order ms) = mset order"
  by (induction ms arbitrary: order) (simp_all add: mset_move_step)

lemma filter_pop: "i < length xs \<Longrightarrow> \<not> P (xs ! i) \<Longrightarrow> filter P (pop xs i) = filter P xs"
proof -
  assume a: "i < length xs" "\<not> P (xs ! i)"
  then have "filter P xs = filter P (take i xs @ xs ! i # drop (Suc i) xs)"
    using id_take_nth_drop by metis
  with a show ?thesis
    by (simp add: pop_def)
qed

lemma filter_py_insert: "\<not> P x \<Longrightarrow> filter P (py_insert xs i x) = filter P xs"
proof -
  have "filter P (take j xs) @ filter P (drop j xs) = filter P xs" for j
    by (metis append_take_drop_id filter_append)
  then show "\<not> P x \<Longrightarrow> ?thesis"
    by (simp add: py_insert_def Let_def)
qed

lemma filter_move_step:
  "\<not> P (fst m) \<Longrightarrow> filter P (move_step order m) = filter P order"
  by (cases m)
     (auto simp: move_step_def Let_def filter_py_insert filter_pop
           split: option.splits dest!: list_index_Some)

lemma filter_foldl_move_step:
  "\<forall>m\<in>set ms. \<not> P (fst m) \<Longrightarrow> filter P (foldl move_step order ms) = filter P order"
  by (induction ms arbitrary: order) (simp_all add: filter_move_step)


lemma normalize_rejects:
  "(k, v) \<in> set raw \<Longrightarrow>
   (py_int_str k = Inr s \<and> (s < 1 \<or> N < s)) \<or> (py_int v = Inr a \<and> (a < 1 \<or> N < a)) \<Longrightarrow>
   \<exists>e. normalize N raw acc = Inl e"
proof (induction N raw acc rule: normalize.induct)
  case (1 page_count moves)
  then show ?case by simp
next
  case (2 page_count k' v' raw moves)
  then show ?case
    by (auto split: sum.splits if_splits)
qed


lemma set_sort_moves: "set (sort_moves moves) = set moves"
  by (simp add: sort_moves_def)


lemma mset_apply_moves: "mset (apply_moves N ms) = mset [1..N]"
  by (simp add: apply_moves_def mset_foldl_move_step)

lemma set_apply_moves: "set (apply_moves N ms) = {1..N}"
proof -
  have "set_mset (mset (apply_moves N ms)) = set_mset (mset [1..N])"
    by (simp only: mset_apply_moves)
  then show ?thesis by simp
qed

lemma distinct_apply_moves: "distinct (apply_moves N ms)"
proof -
  have "distinct [1..N]" by simp
  then show ?thesis
    using mset_apply_moves mset_eq_imp_distinct_iff by blast
qed





lemma filter_pair_upto:
  assumes "1 \<le> x" "x < y" "y \<le> N"
  shows "filter (\<lambda>p. p = x \<or> p = y) [1..N] = [x, y]"
proof -
  have a: "[1..N] = [1..x - 1] @ x # [x + 1..N]"
    using assms by (intro upto_split3) auto
  have b: "[x + 1..N] = [x + 1..y - 1] @ y # [y + 1..N]"
    using assms by (intro upto_split3) auto
  have "filter (\<lambda>p. p = x \<or> p = y) [1..x - 1] = []"
    using assms by (auto simp: filter_empty_conv)
  moreover have "filter (\<lambda>p. p = x \<or> p = y) [x + 1..y - 1] = []"
    by (auto simp: filter_empty_conv)
  moreover have "filter (\<lambda>p. p = x \<or> p = y) [y + 1..N] = []"
    using assms by (auto simp: filter_empty_conv)
  ultimately show ?thesis
    by (simp add: a b)
qed

subsection \<open>The worked example\<close>

lemma rearrange_example:
  "rearrange 30 [(''20'', JInt 5), (''30'', JInt 10)] =
     Inr [1, 2, 3, 4, 5, 20, 6, 7, 8, 9, 10, 30, 11, 12, 13, 14, 15, 16, 17, 18, 19,
          21, 22, 23, 24, 25, 26, 27, 28, 29]"
  by code_simp

text \<open>
  Claim C1. On a document of 30 pages the moves \<open>{20 -> 5, 30 -> 10}\<close> give an order
  whose 6th element (position 5 counting from 0) is page 20 and whose 12th element
  (position 11) is page 30.
\<close>

theorem worked_example_positions:
  "\<exists>order. rearrange 30 [(''20'', JInt 5), (''30'', JInt 10)] = Inr order \<and>
     length order = 30 \<and> order ! 5 = 20 \<and> order ! 11 = 30"
  by (simp add: rearrange_example)

subsection \<open>The anchor lookup\<close>



subsection \<open>Pages that are not moved\<close>

text \<open>
  Claim C10. When the move set is accepted, two pages \<open>x < y\<close> of the document that no
  applied move has as its source are in the final order as in the identity order: the
  final order restricted to the two is \<open>[x, y]\<close>.
\<close>

theorem unmoved_pages_keep_order:
  assumes "normalize page_count raw [] = Inr moves"
    and "1 \<le> x" "x < y" "y \<le> page_count"
    and "x \<notin> fst ` set moves" "y \<notin> fst ` set moves"
  shows "\<exists>order. rearrange page_count raw = Inr order \<and>
           filter (\<lambda>p. p = x \<or> p = y) order = [x, y]"
proof -
  have r: "rearrange page_count raw = Inr (apply_moves page_count (sort_moves moves))"
    using assms(1) by (simp add: rearrange_def)
  have "\<forall>m\<in>set (sort_moves moves). \<not> (fst m = x \<or> fst m = y)"
    using assms(5,6) by (auto simp: set_sort_moves)
  then have "filter (\<lambda>p. p = x \<or> p = y) (apply_moves page_count (sort_moves moves)) =
             filter (\<lambda>p. p = x \<or> p = y) [1..page_count]"
    unfolding apply_moves_def by (rule filter_foldl_move_step)
  then show ?thesis
    using r assms by (simp add: filter_pair_upto)
qed

theorem unmoved_pages_keep_order_witness:
  "normalize 30 [(''20'', JInt 5), (''30'', JInt 10)] [] = Inr [(20, 5), (30, 10)] \<and>
   (1 :: int) \<le> 6 \<and> (6 :: int) < 11 \<and> (11 :: int) \<le> 30 \<and>
   6 \<notin> fst ` set [(20 :: int, 5 :: int), (30, 10)] \<and>
   11 \<notin> fst ` set [(20 :: int, 5 :: int), (30, 10)] \<and>
   (\<exists>order. rearrange 30 [(''20'', JInt 5), (''30'', JInt 10)] = Inr order \<and>
      filter (\<lambda>p. p = 6 \<or> p = 11) order = [6, 11])"
proof -
  have h: "normalize 30 [(''20'', JInt 5), (''30'', JInt 10)] [] = Inr [(20, 5), (30, 10)]"
    by code_simp
  have n: "6 \<notin> fst ` set [(20 :: int, 5 :: int), (30, 10)] \<and>
           11 \<notin> fst ` set [(20 :: int, 5 :: int), (30, 10)]"
    by simp
  show ?thesis
    using h n
      unmoved_pages_keep_order [where page_count = 30
        and raw = "[(''20'', JInt 5), (''30'', JInt 10)]"
        and moves = "[(20, 5), (30, 10)]" and x = 6 and y = 11]
    by simp
qed

section \<open>Properties of the sort\<close>

lemma sorted_rearrange_page_list: "sorted (map sort_key_fn (rearrange_page_list ps))"
  by (simp add: rearrange_page_list_def)







lemma update_page_absent:
  "\<forall>p\<in>set pages. index p \<noteq> i \<Longrightarrow> update_page pages i new = pages"
  by (induction pages) simp_all






text \<open>
  Claim C9. Sorting the sorted list again, with the pages as they are, gives the same
  list.
\<close>

theorem rearrange_page_list_idempotent:
  "rearrange_page_list (rearrange_page_list ps) = rearrange_page_list ps"
proof -
  have "sort_key sort_key_fn (rearrange_page_list ps) = rearrange_page_list ps"
    by (rule sort_key_id_if_sorted) (rule sorted_rearrange_page_list)
  then show ?thesis
    by (simp add: rearrange_page_list_def)
qed

section \<open>Orders are permutations\<close>

text \<open>
  Claim C2. The sorted page list is a permutation of the page list, hence its page
  references are those of the input, none twice when none was twice before. When the move
  set is accepted, the order after each move, and the order \<open>rearrange\<close> returns, is a
  permutation of \<open>[1..page_count]\<close> without duplicates.
\<close>

theorem orders_are_permutations:
  "mset (rearrange_page_list init_pages) = mset init_pages \<and>
   mset (map index (rearrange_page_list init_pages)) = mset (map index init_pages) \<and>
   (distinct (map index init_pages) \<longrightarrow> distinct (map index (rearrange_page_list init_pages))) \<and>
   (normalize page_count raw [] = Inr moves \<longrightarrow>
      (\<forall>k. k \<le> length moves \<longrightarrow>
         mset (apply_moves page_count (take k (sort_moves moves))) = mset [1..page_count] \<and>
         distinct (apply_moves page_count (take k (sort_moves moves)))) \<and>
      (\<exists>order. rearrange page_count raw = Inr order \<and>
         mset order = mset [1..page_count] \<and> distinct order))"
proof (intro conjI impI allI)
  show p: "mset (rearrange_page_list init_pages) = mset init_pages"
    by (simp add: rearrange_page_list_def)
  then have "image_mset index (mset (rearrange_page_list init_pages)) =
             image_mset index (mset init_pages)"
    by simp
  then show q: "mset (map index (rearrange_page_list init_pages)) = mset (map index init_pages)"
    by simp
  show "distinct (map index (rearrange_page_list init_pages))"
    if "distinct (map index init_pages)"
    using that q mset_eq_imp_distinct_iff by blast
next
  fix k
  show "mset (apply_moves page_count (take k (sort_moves moves))) = mset [1..page_count]"
    by (rule mset_apply_moves)
  show "distinct (apply_moves page_count (take k (sort_moves moves)))"
    by (rule distinct_apply_moves)
next
  assume "normalize page_count raw [] = Inr moves"
  then have "rearrange page_count raw = Inr (apply_moves page_count (sort_moves moves))"
    by (simp add: rearrange_def)
  then show "\<exists>order. rearrange page_count raw = Inr order \<and>
         mset order = mset [1..page_count] \<and> distinct order"
    by (simp add: mset_apply_moves distinct_apply_moves)
qed

theorem orders_are_permutations_witness:
  "distinct (map index
     [\<lparr>index = 0, failed = True, chap = Numeric 0, chapter_page = 0\<rparr>,
      \<lparr>index = 1, failed = False, chap = Supplement, chapter_page = 1\<rparr>]) \<and>
   distinct (map index (rearrange_page_list
     [\<lparr>index = 0, failed = True, chap = Numeric 0, chapter_page = 0\<rparr>,
      \<lparr>index = 1, failed = False, chap = Supplement, chapter_page = 1\<rparr>])) \<and>
   normalize 30 [(''20'', JInt 5), (''30'', JInt 10)] [] = Inr [(20, 5), (30, 10)] \<and>
   (1 :: nat) \<le> length [(20 :: int, 5 :: int), (30, 10)] \<and>
   mset (apply_moves 30 (take 1 (sort_moves [(20, 5), (30, 10)]))) = mset [1..30] \<and>
   distinct (apply_moves 30 (take 1 (sort_moves [(20, 5), (30, 10)]))) \<and>
   (\<exists>order. rearrange 30 [(''20'', JInt 5), (''30'', JInt 10)] = Inr order \<and>
      mset order = mset [1..30] \<and> distinct order)"
proof -
  have h: "normalize 30 [(''20'', JInt 5), (''30'', JInt 10)] [] = Inr [(20, 5), (30, 10)]"
    by code_simp
  have d: "distinct (map index
     [\<lparr>index = 0, failed = True, chap = Numeric 0, chapter_page = 0\<rparr>,
      \<lparr>index = 1, failed = False, chap = Supplement, chapter_page = 1\<rparr>])"
    by simp
  have l: "(1 :: nat) \<le> length [(20 :: int, 5 :: int), (30, 10)]"
    by simp
  show ?thesis
    using h d l
      orders_are_permutations [where page_count = 30
        and raw = "[(''20'', JInt 5), (''30'', JInt 10)]"
        and moves = "[(20, 5), (30, 10)]"
        and init_pages = "[\<lparr>index = 0, failed = True, chap = Numeric 0, chapter_page = 0\<rparr>,
      \<lparr>index = 1, failed = False, chap = Supplement, chapter_page = 1\<rparr>]"]
    by blast
qed

section \<open>Page numbers out of range\<close>

text \<open>
  Claim C4, as the source has it. A move whose source or anchor is outside
  \<open>[1, page_count]\<close> makes \<open>rearrange\<close> fail in its first loop, before the order exists.
  The manual corrections have no such check: an entry whose key is outside \<open>[1, N]\<close>,
  and whose value is well formed, matches no page and is passed over without an error.
\<close>

theorem out_of_range_page_numbers:
  "((k, v) \<in> set raw \<and>
      ((py_int_str k = Inr s \<and> (s < 1 \<or> page_count < s)) \<or>
       (py_int v = Inr a \<and> (a < 1 \<or> page_count < a))) \<longrightarrow>
      (\<exists>e. normalize page_count raw [] = Inl e \<and> rearrange page_count raw = Inl e)) \<and>
   (py_int_str key = Inr n \<and> (n < 1 \<or> N < n) \<and>
      (\<forall>p\<in>set init_pages. 0 \<le> index p \<and> index p < N) \<and>
      subscript val 0 = Inr c \<and> subscript val 1 = Inr cp \<and>
      convert_chapter c = Inr ch \<and> as_int cp = Some m \<longrightarrow>
      manual_page_adjustments ((key, val) # adjustments) init_pages =
        manual_page_adjustments adjustments init_pages)"
proof (intro conjI impI)
  assume h: "(k, v) \<in> set raw \<and>
      ((py_int_str k = Inr s \<and> (s < 1 \<or> page_count < s)) \<or>
       (py_int v = Inr a \<and> (a < 1 \<or> page_count < a)))"
  then obtain e where "normalize page_count raw [] = Inl e"
    using normalize_rejects [of k v raw s page_count a "[]"] by blast
  then show "\<exists>e. normalize page_count raw [] = Inl e \<and> rearrange page_count raw = Inl e"
    by (simp add: rearrange_def)
next
  assume h: "py_int_str key = Inr n \<and> (n < 1 \<or> N < n) \<and>
      (\<forall>p\<in>set init_pages. 0 \<le> index p \<and> index p < N) \<and>
      subscript val 0 = Inr c \<and> subscript val 1 = Inr cp \<and>
      convert_chapter c = Inr ch \<and> as_int cp = Some m"
  then have "\<forall>p\<in>set init_pages. index p \<noteq> n - 1"
    by fastforce
  then have "update_page init_pages (n - 1)
      \<lparr>index = n - 1, failed = False, chap = ch, chapter_page = m\<rparr> = init_pages"
    by (rule update_page_absent)
  with h show "manual_page_adjustments ((key, val) # adjustments) init_pages =
        manual_page_adjustments adjustments init_pages"
    by (simp add: Let_def)
qed

theorem out_of_range_page_numbers_witness:
  "((''31'', JInt 5) \<in> set [(''20'', JInt 5), (''31'', JInt 5)] \<and>
     py_int_str ''31'' = Inr 31 \<and> (30 :: int) < 31) \<and>
   (\<exists>e. normalize 30 [(''20'', JInt 5), (''31'', JInt 5)] [] = Inl e \<and>
        rearrange 30 [(''20'', JInt 5), (''31'', JInt 5)] = Inl e) \<and>
   (py_int_str ''99'' = Inr 99 \<and> (1 :: int) < 99 \<and>
     list_all (\<lambda>p. 0 \<le> index p \<and> index p < 1)
       [\<lparr>index = 0, failed = True, chap = Numeric 0, chapter_page = 0\<rparr>] \<and>
     subscript (JList [JInt 3, JInt 4]) 0 = Inr (JInt 3) \<and>
     subscript (JList [JInt 3, JInt 4]) 1 = Inr (JInt 4) \<and>
     convert_chapter (JInt 3) = Inr (Numeric 3) \<and> as_int (JInt 4) = Some 4) \<and>
   manual_page_adjustments [(''99'', JList [JInt 3, JInt 4])]
       [\<lparr>index = 0, failed = True, chap = Numeric 0, chapter_page = 0\<rparr>] =
     manual_page_adjustments []
       [\<lparr>index = 0, failed = True, chap = Numeric 0, chapter_page = 0\<rparr>]"
proof -
  have h1: "(''31'', JInt 5) \<in> set [(''20'', JInt 5), (''31'', JInt 5)] \<and>
     py_int_str ''31'' = Inr 31 \<and> (30 :: int) < 31"
    by code_simp
  have h2: "py_int_str ''99'' = Inr 99 \<and> (1 :: int) < 99 \<and>
     (\<forall>p\<in>set [\<lparr>index = 0, failed = True, chap = Numeric 0, chapter_page = 0\<rparr>].
        0 \<le> index p \<and> index p < 1) \<and>
     subscript (JList [JInt 3, JInt 4]) 0 = Inr (JInt 3) \<and>
     subscript (JList [JInt 3, JInt 4]) 1 = Inr (JInt 4) \<and>
     convert_chapter (JInt 3) = Inr (Numeric 3) \<and> as_int (JInt 4) = Some 4"
    by code_simp
  have h3: "list_all (\<lambda>p. 0 \<le> index p \<and> index p < 1)
       [\<lparr>index = 0, failed = True, chap = Numeric 0, chapter_page = 0\<rparr>]"
    by simp
  show ?thesis
    using h1 h2 h3
      out_of_range_page_numbers [where k = "''31''" and v = "JInt 5"
        and raw = "[(''20'', JInt 5), (''31'', JInt 5)]" and s = 31 and page_count = 30
        and a = 5 and key = "''99''" and n = 99 and N = 1
        and init_pages = "[\<lparr>index = 0, failed = True, chap = Numeric 0, chapter_page = 0\<rparr>]"
        and val = "JList [JInt 3, JInt 4]" and c = "JInt 3" and cp = "JInt 4"
        and ch = "Numeric 3" and m = 4 and adjustments = "[]"]
    by blast
qed

text \<open>
  The claim as the specification words it fails for the manual corrections: on a
  document of one page the key \<open>99\<close> raises nothing, and the page list is returned as
  it was.
\<close>

theorem override_key_out_of_range_ignored:
  "manual_page_adjustments [(''99'', JList [JInt 3, JInt 4])]
     [\<lparr>index = 0, failed = True, chap = Numeric 0, chapter_page = 0\<rparr>] =
   Inr [\<lparr>index = 0, failed = True, chap = Numeric 0, chapter_page = 0\<rparr>]"
  by code_simp

section \<open>Properties of the classification\<close>

subsection \<open>What a match of the label pattern captures\<close>

lemma splits_from_mem:
  "(a, r) \<in> set (splits_from lo cl s) \<Longrightarrow>
   \<exists>k. lo \<le> k \<and> k \<le> length (takeWhile (in_class cl) s) \<and> a = take k s \<and> r = drop k s"
  by (auto simp: splits_from_def Let_def)

lemma take_within_takeWhile:
  "k \<le> length (takeWhile P s) \<Longrightarrow> \<forall>c\<in>set (take k s). P c"
  by (induction s arbitrary: k) (auto simp: take_Cons split: nat.splits if_splits)

lemma plus_digit_mem:
  assumes "(a, r) \<in> set (item_m (Plus Digit) s)"
  shows "a \<noteq> [] \<and> (\<forall>c\<in>set a. is_digit c)"
proof -
  obtain k where k: "1 \<le> k" "k \<le> length (takeWhile (in_class Digit) s)" "a = take k s"
    using assms splits_from_mem [of a r 1 Digit s] by auto
  then have "s \<noteq> []" by auto
  with k have "a \<noteq> []" by auto
  moreover have "\<forall>c\<in>set a. is_digit c"
    using take_within_takeWhile [OF k(2)] k(3) by simp
  ultimately show ?thesis by simp
qed

lemma one_mem:
  "(a, r) \<in> set (item_m (One cl) s) \<Longrightarrow> \<exists>c. s = c # r \<and> a = [c] \<and> in_class cl c"
  by (cases s) (auto split: if_splits)

lemma seq_single: "seq_m [i] s = item_m i s"
  by (simp add: case_prod_unfold)

lemma chapter_group_mem:
  assumes "(a, r) \<in> set (alt_m [[Plus Digit], [One (Lit CHR ''S'')], [One (Lit CHR ''$'')]] s)"
  shows "a = ''S'' \<or> a = ''$'' \<or> (a \<noteq> [] \<and> (\<forall>c\<in>set a. is_digit c))"
  using assms
  by (auto simp: alt_m_def seq_single simp del: seq_m.simps item_m.simps
           dest!: one_mem plus_digit_mem)

lemma ocr_chapter_group_mem:
  assumes "(a, r) \<in> set (alt_m [[Plus Digit], [One (Lit CHR ''S'')]] s)"
  shows "a = ''S'' \<or> (a \<noteq> [] \<and> (\<forall>c\<in>set a. is_digit c))"
  using assms
  by (auto simp: alt_m_def seq_single simp del: seq_m.simps item_m.simps
           dest!: one_mem plus_digit_mem)

lemma page_group_mem:
  assumes "(b, r) \<in> set (alt_m [[Plus Digit]] s)"
  shows "b \<noteq> [] \<and> (\<forall>c\<in>set b. is_digit c)"
  using assms
  by (auto simp: alt_m_def seq_single simp del: seq_m.simps item_m.simps
           dest!: plus_digit_mem)

lemma page_num_pattern_groups:
  assumes "(caps, r) \<in> set (pat_m page_num_pattern s)"
  shows "\<exists>a b. caps = [a, b] \<and>
           (a = ''S'' \<or> a = ''$'' \<or> (a \<noteq> [] \<and> (\<forall>c\<in>set a. is_digit c))) \<and>
           b \<noteq> [] \<and> (\<forall>c\<in>set b. is_digit c)"
  using assms
  by (auto simp: page_num_pattern_def simp del: item_m.simps
           dest!: chapter_group_mem page_group_mem)

lemma ocr_page_num_pattern_groups:
  assumes "(caps, r) \<in> set (pat_m ocr_page_num_pattern s)"
  shows "\<exists>a b. caps = [a, b] \<and>
           (a = ''S'' \<or> (a \<noteq> [] \<and> (\<forall>c\<in>set a. is_digit c))) \<and>
           b \<noteq> [] \<and> (\<forall>c\<in>set b. is_digit c)"
  using assms
  by (auto simp: ocr_page_num_pattern_def simp del: item_m.simps
           dest!: ocr_chapter_group_mem page_group_mem)

lemma match_at_mem: "match_at pat s = Some m \<Longrightarrow> m \<in> set (pat_m pat s)"
  by (auto simp: match_at_def split: list.splits)

lemma findall_mem:
  "caps \<in> set (findall pat s) \<Longrightarrow> \<exists>s' r. (caps, r) \<in> set (pat_m pat s')"
proof (induction pat s rule: findall.induct)
  case (1 pat s)
  have eq: "findall pat s =
    (case match_at pat s of
       None \<Rightarrow> (case s of [] \<Rightarrow> [] | x # t \<Rightarrow> findall pat t)
     | Some (c, rest) \<Rightarrow>
         if length rest < length s then c # findall pat rest
         else c # (case s of [] \<Rightarrow> [] | x # t \<Rightarrow> findall pat t))"
    by (rule findall.simps)
  show ?case
  proof (cases "match_at pat s")
    case None
    show ?thesis
    proof (cases s)
      case Nil
      with "1.prems" None eq show ?thesis by (simp del: findall.simps)
    next
      case (Cons x t)
      with "1.prems" None eq have "caps \<in> set (findall pat t)"
        by (simp del: findall.simps)
      with "1.IH"(1) [OF None Cons] show ?thesis by blast
    qed
  next
    case (Some m)
    obtain c rest where m: "m = (c, rest)" by (cases m)
    have mem: "(c, rest) \<in> set (pat_m pat s)"
      using Some m match_at_mem by blast
    show ?thesis
    proof (cases "length rest < length s")
      case True
      with "1.prems" Some m eq have "caps = c \<or> caps \<in> set (findall pat rest)"
        by (simp del: findall.simps)
      with mem "1.IH"(2) [OF Some m [symmetric] True] show ?thesis by blast
    next
      case False
      show ?thesis
      proof (cases s)
        case Nil
        with "1.prems" Some m False eq have "caps = c"
          by (simp del: findall.simps)
        with mem show ?thesis by blast
      next
        case (Cons x t)
        with "1.prems" Some m False eq have "caps = c \<or> caps \<in> set (findall pat t)"
          by (simp del: findall.simps)
        with mem "1.IH"(3) [OF Some m [symmetric] False Cons] show ?thesis by blast
      qed
    qed
  qed
qed



lemma digit_not_space: "is_digit c \<Longrightarrow> \<not> is_space c"
  by (auto simp: is_digit_def is_space_def)

lemma digit_not_sign: "is_digit c \<Longrightarrow> c \<noteq> CHR ''-'' \<and> c \<noteq> CHR ''+'' \<and> c \<noteq> CHR ''_''"
  by (auto simp: is_digit_def)

lemma literal_digits_digits:
  "ds \<noteq> [] \<Longrightarrow> \<forall>c\<in>set ds. is_digit c \<Longrightarrow> literal_digits ds = Some ds"
  by (induction ds rule: literal_digits.induct) (auto simp: digit_not_sign)

lemma strip_digits:
  assumes "ds \<noteq> []" "\<forall>c\<in>set ds. is_digit c"
  shows "strip ds = ds"
proof -
  have "\<not> is_space (hd ds)"
    using assms by (simp add: digit_not_space)
  then have a: "dropWhile is_space ds = ds"
    using assms(1) by (cases ds) simp_all
  have "\<not> is_space (hd (rev ds))"
    using assms by (simp add: digit_not_space hd_rev)
  then have "dropWhile is_space (rev ds) = rev ds"
    using assms(1) by (cases "rev ds") simp_all
  with a show ?thesis
    by (simp add: strip_def)
qed

lemma py_int_str_digits:
  assumes "ds \<noteq> []" "\<forall>c\<in>set ds. is_digit c"
  shows "py_int_str ds =
           (if int_max_str_digits < length ds then Inl ValueError
            else Inr (int (digits_val ds)))"
proof -
  obtain c cs where ds: "ds = c # cs"
    using assms(1) by (cases ds) auto
  then have "is_digit c" using assms(2) by simp
  then have "c \<noteq> CHR ''-''" "c \<noteq> CHR ''+''"
    using digit_not_sign by auto
  moreover have "literal_digits (c # cs) = Some (c # cs)"
    using literal_digits_digits [OF assms] ds by simp
  moreover have "strip ds = c # cs"
    using strip_digits [OF assms] ds by simp
  ultimately show ?thesis
    by (simp add: py_int_str_def literal_value_def ds)
qed

lemma marker_not_digits:
  "ds \<noteq> [] \<Longrightarrow> \<forall>c\<in>set ds. is_digit c \<Longrightarrow> ds \<noteq> ''S'' \<and> ds \<noteq> ''$''"
  by (auto simp: is_digit_def)

lemma page_of_match_text:
  assumes "numbs \<in> set (findall page_num_pattern s)"
  shows "page_of_match [''S'', ''$''] i numbs =
     (if length (numbs ! 0) \<le> int_max_str_digits \<and> length (numbs ! 1) \<le> int_max_str_digits
      then Inr \<lparr>index = i, failed = False,
                chap = (if numbs ! 0 = ''S'' \<or> numbs ! 0 = ''$'' then Supplement
                        else Numeric (int (digits_val (numbs ! 0)))),
                chapter_page = int (digits_val (numbs ! 1))\<rparr>
      else Inl ValueError)"
proof -
  obtain s' r where "(numbs, r) \<in> set (pat_m page_num_pattern s')"
    using findall_mem [OF assms] by blast
  then obtain a b where ab: "numbs = [a, b]"
      "a = ''S'' \<or> a = ''$'' \<or> (a \<noteq> [] \<and> (\<forall>c\<in>set a. is_digit c))"
      "b \<noteq> []" "\<forall>c\<in>set b. is_digit c"
    using page_num_pattern_groups by blast
  have b: "py_int_str b =
           (if int_max_str_digits < length b then Inl ValueError
            else Inr (int (digits_val b)))"
    using ab(3,4) by (rule py_int_str_digits)
  show ?thesis
  proof (cases "a = ''S'' \<or> a = ''$''")
    case True
    then have "length a \<le> int_max_str_digits"
      by (auto simp: int_max_str_digits_def)
    with True ab(1) b show ?thesis
      by (auto simp: page_of_match_def)
  next
    case False
    with ab(2) have "py_int_str a =
           (if int_max_str_digits < length a then Inl ValueError
            else Inr (int (digits_val a)))"
      by (simp add: py_int_str_digits)
    with False ab(1) b show ?thesis
      by (simp add: page_of_match_def)
  qed
qed

lemma page_of_match_ocr:
  assumes "numbs \<in> set (findall ocr_page_num_pattern s)"
  shows "page_of_match [''S''] i numbs =
     (if length (numbs ! 0) \<le> int_max_str_digits \<and> length (numbs ! 1) \<le> int_max_str_digits
      then Inr \<lparr>index = i, failed = False,
                chap = (if numbs ! 0 = ''S'' then Supplement
                        else Numeric (int (digits_val (numbs ! 0)))),
                chapter_page = int (digits_val (numbs ! 1))\<rparr>
      else Inl ValueError)"
proof -
  obtain s' r where "(numbs, r) \<in> set (pat_m ocr_page_num_pattern s')"
    using findall_mem [OF assms] by blast
  then obtain a b where ab: "numbs = [a, b]"
      "a = ''S'' \<or> (a \<noteq> [] \<and> (\<forall>c\<in>set a. is_digit c))"
      "b \<noteq> []" "\<forall>c\<in>set b. is_digit c"
    using ocr_page_num_pattern_groups by blast
  have b: "py_int_str b =
           (if int_max_str_digits < length b then Inl ValueError
            else Inr (int (digits_val b)))"
    using ab(3,4) by (rule py_int_str_digits)
  show ?thesis
  proof (cases "a = ''S''")
    case True
    then have "length a \<le> int_max_str_digits"
      by (simp add: int_max_str_digits_def)
    with True ab(1) b show ?thesis
      by (auto simp: page_of_match_def)
  next
    case False
    with ab(2) have "py_int_str a =
           (if int_max_str_digits < length a then Inl ValueError
            else Inr (int (digits_val a)))"
      by (simp add: py_int_str_digits)
    with False ab(1) b show ?thesis
      by (simp add: page_of_match_def)
  qed
qed

subsection \<open>The passes\<close>

lemma create_pages_step_ok:
  assumes "findall page_num_pattern t \<noteq> [] \<longrightarrow>
             length (last (findall page_num_pattern t) ! 0) \<le> int_max_str_digits \<and>
             length (last (findall page_num_pattern t) ! 1) \<le> int_max_str_digits"
  shows "\<exists>p. create_pages i (Some t # doc) acc = create_pages (i + 1) doc (acc @ [p]) \<and>
       index p = i \<and>
       (if findall page_num_pattern t = [] then
          failed p \<and> chap p = Numeric 0 \<and> chapter_page p = 0
        else \<not> failed p \<and>
          chap p = (if last (findall page_num_pattern t) ! 0 = ''S'' \<or>
                       last (findall page_num_pattern t) ! 0 = ''$'' then Supplement
                    else Numeric (int (digits_val (last (findall page_num_pattern t) ! 0)))) \<and>
          chapter_page p = int (digits_val (last (findall page_num_pattern t) ! 1)))"
proof (cases "findall page_num_pattern t = []")
  case True
  then show ?thesis
    by (intro exI [of _ "\<lparr>index = i, failed = True, chap = Numeric 0, chapter_page = 0\<rparr>"])
       simp
next
  case False
  then have "last (findall page_num_pattern t) \<in> set (findall page_num_pattern t)"
    by (rule last_in_set)
  from page_of_match_text [OF this, of i] False assms show ?thesis
    by (intro exI [of _ "\<lparr>index = i, failed = False,
          chap = (if last (findall page_num_pattern t) ! 0 = ''S'' \<or>
                     last (findall page_num_pattern t) ! 0 = ''$'' then Supplement
                  else Numeric (int (digits_val (last (findall page_num_pattern t) ! 0)))),
          chapter_page = int (digits_val (last (findall page_num_pattern t) ! 1))\<rparr>"])
       (simp add: Let_def)
qed

lemma create_pages_step_long:
  assumes "findall page_num_pattern t \<noteq> []"
    and "\<not> (length (last (findall page_num_pattern t) ! 0) \<le> int_max_str_digits \<and>
             length (last (findall page_num_pattern t) ! 1) \<le> int_max_str_digits)"
  shows "create_pages i (Some t # doc) acc = Inl ValueError"
proof -
  have m: "last (findall page_num_pattern t) \<in> set (findall page_num_pattern t)"
    using assms(1) by (rule last_in_set)
  have "page_of_match [''S'', ''$''] i (last (findall page_num_pattern t)) = Inl ValueError"
    unfolding page_of_match_text [OF m] by (intro if_not_P assms(2))
  with assms(1) show ?thesis
    by (simp add: Let_def)
qed

lemma create_pages_texts:
  assumes "\<forall>t\<in>set texts. findall page_num_pattern t \<noteq> [] \<longrightarrow>
             length (last (findall page_num_pattern t) ! 0) \<le> int_max_str_digits \<and>
             length (last (findall page_num_pattern t) ! 1) \<le> int_max_str_digits"
  shows "\<exists>new. create_pages i (map Some texts) acc = Inr (acc @ new) \<and>
     length new = length texts \<and>
     (\<forall>k<length texts. index (new ! k) = i + int k \<and>
        (if findall page_num_pattern (texts ! k) = [] then
           failed (new ! k) \<and> chap (new ! k) = Numeric 0 \<and> chapter_page (new ! k) = 0
         else \<not> failed (new ! k) \<and>
           chap (new ! k) =
             (if last (findall page_num_pattern (texts ! k)) ! 0 = ''S'' \<or>
                 last (findall page_num_pattern (texts ! k)) ! 0 = ''$'' then Supplement
              else Numeric (int (digits_val (last (findall page_num_pattern (texts ! k)) ! 0)))) \<and>
           chapter_page (new ! k) =
             int (digits_val (last (findall page_num_pattern (texts ! k)) ! 1))))"
  using assms
proof (induction texts arbitrary: i acc)
  case Nil
  show ?case by simp
next
  case (Cons t texts)
  have good: "findall page_num_pattern t \<noteq> [] \<longrightarrow>
             length (last (findall page_num_pattern t) ! 0) \<le> int_max_str_digits \<and>
             length (last (findall page_num_pattern t) ! 1) \<le> int_max_str_digits"
    using Cons.prems by simp
  obtain p where p: "create_pages i (Some t # map Some texts) acc =
        create_pages (i + 1) (map Some texts) (acc @ [p])"
      "index p = i"
      "if findall page_num_pattern t = [] then
          failed p \<and> chap p = Numeric 0 \<and> chapter_page p = 0
        else \<not> failed p \<and>
          chap p = (if last (findall page_num_pattern t) ! 0 = ''S'' \<or>
                       last (findall page_num_pattern t) ! 0 = ''$'' then Supplement
                    else Numeric (int (digits_val (last (findall page_num_pattern t) ! 0)))) \<and>
          chapter_page p = int (digits_val (last (findall page_num_pattern t) ! 1))"
    using create_pages_step_ok [OF good, of i "map Some texts" acc] by (elim exE conjE)
  have rest: "\<forall>t\<in>set texts. findall page_num_pattern t \<noteq> [] \<longrightarrow>
             length (last (findall page_num_pattern t) ! 0) \<le> int_max_str_digits \<and>
             length (last (findall page_num_pattern t) ! 1) \<le> int_max_str_digits"
    using Cons.prems by simp
  obtain new where n1: "create_pages (i + 1) (map Some texts) (acc @ [p]) = Inr ((acc @ [p]) @ new)"
    and n2: "length new = length texts"
    and n3: "\<forall>k<length texts. index (new ! k) = (i + 1) + int k \<and>
        (if findall page_num_pattern (texts ! k) = [] then
           failed (new ! k) \<and> chap (new ! k) = Numeric 0 \<and> chapter_page (new ! k) = 0
         else \<not> failed (new ! k) \<and>
           chap (new ! k) =
             (if last (findall page_num_pattern (texts ! k)) ! 0 = ''S'' \<or>
                 last (findall page_num_pattern (texts ! k)) ! 0 = ''$'' then Supplement
              else Numeric (int (digits_val (last (findall page_num_pattern (texts ! k)) ! 0)))) \<and>
           chapter_page (new ! k) =
             int (digits_val (last (findall page_num_pattern (texts ! k)) ! 1)))"
    using Cons.IH [OF rest, of "i + 1" "acc @ [p]"] by (elim exE conjE)
  show ?case
  proof (intro exI [of _ "p # new"] conjI allI impI)
    show "create_pages i (map Some (t # texts)) acc = Inr (acc @ p # new)"
      using p(1) n1 by simp
    show "length (p # new) = length (t # texts)"
      using n2 by simp
  next
    fix k assume k: "k < length (t # texts)"
    show "index ((p # new) ! k) = i + int k"
    proof (cases k)
      case 0
      with p(2) show ?thesis by simp
    next
      case (Suc m)
      with k have "m < length texts" by simp
      from n3 [rule_format, OF this, THEN conjunct1] Suc show ?thesis by simp
    qed
    show "if findall page_num_pattern ((t # texts) ! k) = [] then
           failed ((p # new) ! k) \<and> chap ((p # new) ! k) = Numeric 0 \<and>
           chapter_page ((p # new) ! k) = 0
         else \<not> failed ((p # new) ! k) \<and>
           chap ((p # new) ! k) =
             (if last (findall page_num_pattern ((t # texts) ! k)) ! 0 = ''S'' \<or>
                 last (findall page_num_pattern ((t # texts) ! k)) ! 0 = ''$'' then Supplement
              else Numeric
                (int (digits_val (last (findall page_num_pattern ((t # texts) ! k)) ! 0)))) \<and>
           chapter_page ((p # new) ! k) =
             int (digits_val (last (findall page_num_pattern ((t # texts) ! k)) ! 1))"
    proof (cases k)
      case 0
      with p(3) show ?thesis by (simp only: nth_Cons_0)
    next
      case (Suc m)
      with k have "m < length texts" by simp
      from n3 [rule_format, OF this, THEN conjunct2] show ?thesis
        by (simp only: Suc nth_Cons_Suc)
    qed
  qed
qed

lemma create_pages_error: "create_pages i doc acc = Inl e \<Longrightarrow> e = ValueError"
proof (induction i doc acc rule: create_pages.induct)
  case (1 i init_pages)
  then show ?case by simp
next
  case (2 i doc init_pages)
  then show ?case by simp
next
  case (3 i t doc init_pages)
  show ?case
  proof (cases "findall page_num_pattern t = []")
    case True
    with 3 show ?thesis by (simp add: Let_def)
  next
    case False
    then have m: "last (findall page_num_pattern t) \<in> set (findall page_num_pattern t)"
      by (rule last_in_set)
    show ?thesis
    proof (cases "length (last (findall page_num_pattern t) ! 0) \<le> int_max_str_digits \<and>
             length (last (findall page_num_pattern t) ! 1) \<le> int_max_str_digits")
      case True
      with 3 False page_of_match_text [OF m, of i] show ?thesis
        by (simp add: Let_def)
    next
      case nok: False
      from create_pages_step_long [OF False nok, of i doc init_pages] "3.prems"
      show ?thesis by simp
    qed
  qed
qed

lemma create_pages_Inr_short:
  "create_pages i doc acc = Inr pages \<Longrightarrow> Some t \<in> set doc \<Longrightarrow>
   findall page_num_pattern t \<noteq> [] \<Longrightarrow>
   length (last (findall page_num_pattern t) ! 0) \<le> int_max_str_digits \<and>
   length (last (findall page_num_pattern t) ! 1) \<le> int_max_str_digits"
proof (induction i doc acc rule: create_pages.induct)
  case (1 i init_pages)
  then show ?case by simp
next
  case (2 i doc init_pages)
  then show ?case by simp
next
  case (3 i u doc init_pages)
  have u: "findall page_num_pattern u \<noteq> [] \<longrightarrow>
             length (last (findall page_num_pattern u) ! 0) \<le> int_max_str_digits \<and>
             length (last (findall page_num_pattern u) ! 1) \<le> int_max_str_digits"
  proof (rule ccontr)
    assume "\<not> ?thesis"
    then have "create_pages i (Some u # doc) init_pages = Inl ValueError"
      by (intro create_pages_step_long) simp_all
    with "3.prems"(1) show False by simp
  qed
  show ?case
  proof (cases "t = u")
    case True
    with u "3.prems"(3) show ?thesis by simp
  next
    case False
    with "3.prems"(2) have td: "Some t \<in> set doc" by simp
    obtain p where p: "create_pages i (Some u # doc) init_pages =
        create_pages (i + 1) doc (init_pages @ [p])"
      using create_pages_step_ok [OF u, of i doc init_pages] by (elim exE conjE)
    show ?thesis
    proof (cases "findall page_num_pattern u = []")
      case True
      then have "create_pages (i + 1) doc
          (init_pages @ [\<lparr>index = i, failed = True, chap = Numeric 0, chapter_page = 0\<rparr>]) =
          Inr pages"
        using "3.prems"(1) by (simp add: Let_def)
      from "3.IH"(1) [OF refl _ this td "3.prems"(3)] True show ?thesis by simp
    next
      case ne: False
      then have m: "last (findall page_num_pattern u) \<in> set (findall page_num_pattern u)"
        by (rule last_in_set)
      from page_of_match_text [OF m, of i] u ne obtain q where
        q: "page_of_match [''S'', ''$''] i (last (findall page_num_pattern u)) = Inr q"
        by simp
      then have "create_pages (i + 1) doc (init_pages @ [q]) = Inr pages"
        using "3.prems"(1) ne by (simp add: Let_def)
      from "3.IH"(2) [OF refl _ q this td "3.prems"(3)] ne show ?thesis by simp
    qed
  qed
qed

lemma splits_from_head:
  assumes "lo \<le> length (takeWhile (in_class cl) s)"
  shows "\<exists>rest. splits_from lo cl s =
           (takeWhile (in_class cl) s, dropWhile (in_class cl) s) # rest"
proof -
  have "rev [lo..<Suc (length (takeWhile (in_class cl) s))] =
        length (takeWhile (in_class cl) s) # rev [lo..<length (takeWhile (in_class cl) s)]"
    using assms by simp
  then show ?thesis
    by (simp add: splits_from_def Let_def takeWhile_eq_take [symmetric]
          dropWhile_eq_drop [symmetric])
qed

lemma label_tail_match:
  "pat_m [Item (Star NonWord), Item (One (Lit CHR ''-'')), Item (Star NonWord),
          Group [[Plus Digit]], Item (Star NonWord)] ''-1'' = [([''1''], [])]"
  by code_simp

lemma match_at_long_label:
  assumes "ds \<noteq> []" "\<forall>c\<in>set ds. is_digit c"
  shows "match_at page_num_pattern (ds @ ''-1'') = Some ([ds, ''1''], [])"
proof -
  have nd: "\<not> in_class Digit CHR ''-''"
    by (simp add: is_digit_def)
  have tw: "takeWhile (in_class Digit) (ds @ ''-1'') = ds"
    using assms(2) nd by (simp add: takeWhile_append2)
  have dw: "dropWhile (in_class Digit) (ds @ ''-1'') = ''-1''"
    using assms(2) nd by (simp add: dropWhile_append2)
  have "1 \<le> length (takeWhile (in_class Digit) (ds @ ''-1''))"
    using assms(1) tw by (cases ds) simp_all
  from splits_from_head [OF this] obtain rest where
    sp: "splits_from 1 Digit (ds @ ''-1'') = (ds, ''-1'') # rest"
    unfolding tw dw by blast
  have a0: "item_m (Plus Digit) (ds @ ''-1'') = (ds, ''-1'') # rest"
    by (simp only: item_m.simps sp)
  have a1: "\<exists>rest'. alt_m [[Plus Digit], [One (Lit CHR ''S'')], [One (Lit CHR ''$'')]]
              (ds @ ''-1'') = (ds, ''-1'') # rest'"
    by (simp add: alt_m_def seq_single a0 del: item_m.simps seq_m.simps)
  then obtain rest' where a2:
    "alt_m [[Plus Digit], [One (Lit CHR ''S'')], [One (Lit CHR ''$'')]] (ds @ ''-1'') =
       (ds, ''-1'') # rest'"
    by blast
  have "pat_m page_num_pattern (ds @ ''-1'') =
        concat (map (\<lambda>(a, r). map (\<lambda>(caps, r'). (a # caps, r'))
          (pat_m [Item (Star NonWord), Item (One (Lit CHR ''-'')), Item (Star NonWord),
                  Group [[Plus Digit]], Item (Star NonWord)] r))
          (alt_m [[Plus Digit], [One (Lit CHR ''S'')], [One (Lit CHR ''$'')]] (ds @ ''-1'')))"
    by (simp only: page_num_pattern_def pat_m.simps(3))
  then have "\<exists>more. pat_m page_num_pattern (ds @ ''-1'') = ([ds, ''1''], []) # more"
    by (simp add: a2 label_tail_match del: pat_m.simps item_m.simps seq_m.simps)
  then show ?thesis
    by (auto simp: match_at_def)
qed


lemma findall_empty_text: "findall page_num_pattern [] = []"
  by code_simp

lemma findall_long_label:
  assumes "ds \<noteq> []" "\<forall>c\<in>set ds. is_digit c"
  shows "findall page_num_pattern (ds @ ''-1'') = [[ds, ''1'']]"
  by (subst findall.simps)
     (simp add: match_at_long_label [OF assms] findall_empty_text)

lemma create_pages_long_label:
  assumes "ds \<noteq> []" "\<forall>c\<in>set ds. is_digit c" "int_max_str_digits < length ds"
  shows "create_pages i (Some (ds @ ''-1'') # doc) acc = Inl ValueError"
  using assms(3)
  by (intro create_pages_step_long) (simp_all add: findall_long_label [OF assms(1,2)])

lemma set_update_page: "set (update_page ps i new) \<subseteq> insert new (set ps)"
  by (induction ps) auto

lemma manual_pages:
  "manual_page_adjustments adj init_pages = Inr pages \<Longrightarrow>
   \<forall>p\<in>set pages. p \<in> set init_pages \<or>
     (\<exists>key val c cp. (key, val) \<in> set adj \<and> py_int_str key = Inr (index p + 1) \<and>
        subscript val 0 = Inr c \<and> subscript val 1 = Inr cp \<and>
        convert_chapter c = Inr (chap p) \<and> as_int cp = Some (chapter_page p) \<and> \<not> failed p)"
proof (induction adj init_pages rule: manual_page_adjustments.induct)
  case (1 init_pages)
  then show ?case by simp
next
  case (2 key val adjustments init_pages)
  from "2.prems" obtain k c cp ch n where
    f: "py_int_str key = Inr k" "subscript val 0 = Inr c" "subscript val 1 = Inr cp"
       "convert_chapter c = Inr ch" "as_int cp = Some n"
       "manual_page_adjustments adjustments
          (update_page init_pages (k - 1)
             \<lparr>index = k - 1, failed = False, chap = ch, chapter_page = n\<rparr>) = Inr pages"
    by (auto simp: Let_def split: sum.splits option.splits)
  have ih: "\<forall>p\<in>set pages.
      p \<in> set (update_page init_pages (k - 1)
                  \<lparr>index = k - 1, failed = False, chap = ch, chapter_page = n\<rparr>) \<or>
      (\<exists>key val c cp. (key, val) \<in> set adjustments \<and> py_int_str key = Inr (index p + 1) \<and>
        subscript val 0 = Inr c \<and> subscript val 1 = Inr cp \<and>
        convert_chapter c = Inr (chap p) \<and> as_int cp = Some (chapter_page p) \<and> \<not> failed p)"
    using "2.IH" [OF f(1) refl f(2) f(3) f(4) f(5) f(6)] .
  show ?case
  proof
    fix p assume "p \<in> set pages"
    with ih consider
        (upd) "p \<in> set (update_page init_pages (k - 1)
                  \<lparr>index = k - 1, failed = False, chap = ch, chapter_page = n\<rparr>)"
      | (later) "\<exists>key val c cp. (key, val) \<in> set adjustments \<and>
          py_int_str key = Inr (index p + 1) \<and>
          subscript val 0 = Inr c \<and> subscript val 1 = Inr cp \<and>
          convert_chapter c = Inr (chap p) \<and> as_int cp = Some (chapter_page p) \<and> \<not> failed p"
      by blast
    then show "p \<in> set init_pages \<or>
     (\<exists>key' val' c cp. (key', val') \<in> set ((key, val) # adjustments) \<and>
        py_int_str key' = Inr (index p + 1) \<and>
        subscript val' 0 = Inr c \<and> subscript val' 1 = Inr cp \<and>
        convert_chapter c = Inr (chap p) \<and> as_int cp = Some (chapter_page p) \<and> \<not> failed p)"
    proof cases
      case upd
      then have "p = \<lparr>index = k - 1, failed = False, chap = ch, chapter_page = n\<rparr> \<or>
                 p \<in> set init_pages"
        using set_update_page by fastforce
      then show ?thesis
      proof
        assume p: "p = \<lparr>index = k - 1, failed = False, chap = ch, chapter_page = n\<rparr>"
        have "(key, val) \<in> set ((key, val) # adjustments) \<and>
          py_int_str key = Inr (index p + 1) \<and>
          subscript val 0 = Inr c \<and> subscript val 1 = Inr cp \<and>
          convert_chapter c = Inr (chap p) \<and> as_int cp = Some (chapter_page p) \<and> \<not> failed p"
          using f p by simp
        then show ?thesis by blast
      next
        assume "p \<in> set init_pages"
        then show ?thesis by simp
      qed
    next
      case later
      then show ?thesis by fastforce
    qed
  qed
qed

lemma findall_example_label:
  "findall page_num_pattern ''3-4 S - 12'' = [[''3'', ''4''], [''S'', ''12'']]"
  by code_simp

lemma findall_example_plain: "findall page_num_pattern ''hello'' = []"
  by code_simp

lemma page_of_match_nonneg:
  assumes "page_of_match markers i numbs = Inr p"
    and "numbs \<in> set (findall page_num_pattern s) \<and> markers = [''S'', ''$''] \<or>
         numbs \<in> set (findall ocr_page_num_pattern s) \<and> markers = [''S'']"
  shows "\<not> failed p \<and> (case chap p of Numeric n \<Rightarrow> 0 \<le> n | Supplement \<Rightarrow> True) \<and> 0 \<le> chapter_page p"
proof -
  from assms(2) show ?thesis
  proof (elim disjE conjE)
    assume n: "numbs \<in> set (findall page_num_pattern s)" and m: "markers = [''S'', ''$'']"
    from page_of_match_text [OF n, of i] assms(1) m show ?thesis
      by (auto split: if_splits)
  next
    assume n: "numbs \<in> set (findall ocr_page_num_pattern s)" and m: "markers = [''S'']"
    from page_of_match_ocr [OF n, of i] assms(1) m show ?thesis
      by (auto split: if_splits)
  qed
qed

lemma create_pages_nonneg:
  "create_pages i doc acc = Inr pages \<Longrightarrow>
   \<forall>p\<in>set pages. p \<in> set acc \<or> failed p \<or>
     ((case chap p of Numeric n \<Rightarrow> 0 \<le> n | Supplement \<Rightarrow> True) \<and> 0 \<le> chapter_page p)"
proof (induction i doc acc rule: create_pages.induct)
  case (1 i init_pages)
  then show ?case by simp
next
  case (2 i doc init_pages)
  then show ?case by simp
next
  case (3 i t doc init_pages)
  show ?case
  proof (cases "findall page_num_pattern t = []")
    case True
    then have "create_pages (i + 1) doc
        (init_pages @ [\<lparr>index = i, failed = True, chap = Numeric 0, chapter_page = 0\<rparr>]) =
        Inr pages"
      using "3.prems" by (simp add: Let_def)
    from "3.IH"(1) [OF refl _ this] True show ?thesis
      by auto
  next
    case False
    then have m: "last (findall page_num_pattern t) \<in> set (findall page_num_pattern t)"
      by (rule last_in_set)
    from "3.prems" False obtain q where
      q: "page_of_match [''S'', ''$''] i (last (findall page_num_pattern t)) = Inr q"
         "create_pages (i + 1) doc (init_pages @ [q]) = Inr pages"
      by (auto simp: Let_def split: sum.splits)
    have "\<not> failed q \<and> (case chap q of Numeric n \<Rightarrow> 0 \<le> n | Supplement \<Rightarrow> True) \<and>
          0 \<le> chapter_page q"
      using page_of_match_nonneg [OF q(1)] m by blast
    with "3.IH"(2) [OF refl _ q(1) q(2)] False show ?thesis
      by auto
  qed
qed

lemma map_sum_Inr: "map_sum id f x = Inr y \<Longrightarrow> \<exists>z. x = Inr z \<and> y = f z"
  by (cases x) auto

lemma ocr_pages_nonneg:
  "ocr_pages ocr pages = Inr out \<Longrightarrow>
   \<forall>p\<in>set out. p \<in> set pages \<or> (\<not> failed p \<and>
     (case chap p of Numeric n \<Rightarrow> 0 \<le> n | Supplement \<Rightarrow> True) \<and> 0 \<le> chapter_page p)"
proof (induction pages arbitrary: out)
  case Nil
  then show ?case by simp
next
  case (Cons page_el pages)
  show ?case
  proof (cases "failed page_el \<and> findall ocr_page_num_pattern (ocr (index page_el)) \<noteq> []")
    case False
    with Cons.prems obtain out' where o: "ocr_pages ocr pages = Inr out'" "out = page_el # out'"
      by (auto simp: Let_def split: sum.splits if_splits dest!: map_sum_Inr)
    from Cons.IH [OF o(1)] o(2) show ?thesis by auto
  next
    case True
    then have m: "last (findall ocr_page_num_pattern (ocr (index page_el)))
                 \<in> set (findall ocr_page_num_pattern (ocr (index page_el)))"
      by simp
    from Cons.prems True obtain new out' where
      o: "page_of_match [''S''] (index page_el)
            (last (findall ocr_page_num_pattern (ocr (index page_el)))) = Inr new"
         "ocr_pages ocr pages = Inr out'" "out = new # out'"
      by (auto simp: Let_def split: sum.splits if_splits dest!: map_sum_Inr)
    have "\<not> failed new \<and> (case chap new of Numeric n \<Rightarrow> 0 \<le> n | Supplement \<Rightarrow> True) \<and>
          0 \<le> chapter_page new"
      using page_of_match_nonneg [OF o(1)] m by blast
    with Cons.IH [OF o(2)] o(3) show ?thesis by auto
  qed
qed

text \<open>
  Claim C7, as the source has it. Let the extracted text of every page be a string. When
  on every page with a match the chapter token and the page token of the last match
  have at most \<open>int_max_str_digits\<close> digits, the text pass raises nothing and gives
  every page one entry, in document order and none left out: failed (unclassified)
  when the text has no match of the label pattern, the empty text included, and
  otherwise classified with the chapter and the chapter page of the last match. When
  the last match of some page has a longer token, the pass raises ValueError.
\<close>

theorem page_entries_from_last_match:
  "((\<forall>t\<in>set texts. findall page_num_pattern t \<noteq> [] \<longrightarrow>
          length (last (findall page_num_pattern t) ! 0) \<le> int_max_str_digits \<and>
          length (last (findall page_num_pattern t) ! 1) \<le> int_max_str_digits) \<longrightarrow>
      (\<exists>pages. create_initial_page_list (map Some texts) = Inr pages \<and>
         length pages = length texts \<and>
         (\<forall>k<length texts. index (pages ! k) = int k \<and>
            (if findall page_num_pattern (texts ! k) = [] then
               failed (pages ! k) \<and> chap (pages ! k) = Numeric 0 \<and> chapter_page (pages ! k) = 0
             else \<not> failed (pages ! k) \<and>
               chap (pages ! k) =
                 (if last (findall page_num_pattern (texts ! k)) ! 0 = ''S'' \<or>
                     last (findall page_num_pattern (texts ! k)) ! 0 = ''$'' then Supplement
                  else Numeric
                    (int (digits_val (last (findall page_num_pattern (texts ! k)) ! 0)))) \<and>
               chapter_page (pages ! k) =
                 int (digits_val (last (findall page_num_pattern (texts ! k)) ! 1)))))) \<and>
   (\<not> (\<forall>t\<in>set texts. findall page_num_pattern t \<noteq> [] \<longrightarrow>
          length (last (findall page_num_pattern t) ! 0) \<le> int_max_str_digits \<and>
          length (last (findall page_num_pattern t) ! 1) \<le> int_max_str_digits) \<longrightarrow>
      create_initial_page_list (map Some texts) = Inl ValueError)"
proof (intro conjI impI)
  assume "\<forall>t\<in>set texts. findall page_num_pattern t \<noteq> [] \<longrightarrow>
          length (last (findall page_num_pattern t) ! 0) \<le> int_max_str_digits \<and>
          length (last (findall page_num_pattern t) ! 1) \<le> int_max_str_digits"
  from create_pages_texts [OF this, of 0 "[]"]
  show "\<exists>pages. create_initial_page_list (map Some texts) = Inr pages \<and>
         length pages = length texts \<and>
         (\<forall>k<length texts. index (pages ! k) = int k \<and>
            (if findall page_num_pattern (texts ! k) = [] then
               failed (pages ! k) \<and> chap (pages ! k) = Numeric 0 \<and> chapter_page (pages ! k) = 0
             else \<not> failed (pages ! k) \<and>
               chap (pages ! k) =
                 (if last (findall page_num_pattern (texts ! k)) ! 0 = ''S'' \<or>
                     last (findall page_num_pattern (texts ! k)) ! 0 = ''$'' then Supplement
                  else Numeric
                    (int (digits_val (last (findall page_num_pattern (texts ! k)) ! 0)))) \<and>
               chapter_page (pages ! k) =
                 int (digits_val (last (findall page_num_pattern (texts ! k)) ! 1))))"
    by (simp add: create_initial_page_list_def)
next
  assume "\<not> (\<forall>t\<in>set texts. findall page_num_pattern t \<noteq> [] \<longrightarrow>
          length (last (findall page_num_pattern t) ! 0) \<le> int_max_str_digits \<and>
          length (last (findall page_num_pattern t) ! 1) \<le> int_max_str_digits)"
  then obtain t where t: "t \<in> set texts" "findall page_num_pattern t \<noteq> []"
    "\<not> (length (last (findall page_num_pattern t) ! 0) \<le> int_max_str_digits \<and>
        length (last (findall page_num_pattern t) ! 1) \<le> int_max_str_digits)"
    by blast
  show "create_initial_page_list (map Some texts) = Inl ValueError"
  proof (cases "create_pages 0 (map Some texts) []")
    case (Inl e)
    then show ?thesis
      using create_pages_error [OF Inl] by (simp add: create_initial_page_list_def)
  next
    case (Inr pages)
    have "Some t \<in> set (map Some texts)"
      using t(1) by simp
    from create_pages_Inr_short [OF Inr this t(2)] t(3) show ?thesis
      by simp
  qed
qed

theorem page_entries_from_last_match_witness:
  "\<exists>pages. create_initial_page_list (map Some [''3-4 S - 12'', ''hello'']) = Inr pages \<and>
     length pages = 2 \<and>
     index (pages ! 0) = 0 \<and> \<not> failed (pages ! 0) \<and> chap (pages ! 0) = Supplement \<and>
     chapter_page (pages ! 0) = 12 \<and>
     index (pages ! 1) = 1 \<and> failed (pages ! 1)"
proof -
  have h: "\<forall>t\<in>set [''3-4 S - 12'', ''hello'']. findall page_num_pattern t \<noteq> [] \<longrightarrow>
          length (last (findall page_num_pattern t) ! 0) \<le> int_max_str_digits \<and>
          length (last (findall page_num_pattern t) ! 1) \<le> int_max_str_digits"
    by (simp add: findall_example_label findall_example_plain int_max_str_digits_def)
  have dv: "digits_val ''12'' = 12"
    by code_simp
  from page_entries_from_last_match [of "[''3-4 S - 12'', ''hello'']", THEN conjunct1,
      THEN mp, OF h]
  obtain pages where p:
    "create_initial_page_list (map Some [''3-4 S - 12'', ''hello'']) = Inr pages"
    "length pages = length [''3-4 S - 12'', ''hello'']"
    "\<forall>k<length [''3-4 S - 12'', ''hello''].
       index (pages ! k) = int k \<and>
       (if findall page_num_pattern ([''3-4 S - 12'', ''hello''] ! k) = [] then
          failed (pages ! k) \<and> chap (pages ! k) = Numeric 0 \<and> chapter_page (pages ! k) = 0
        else \<not> failed (pages ! k) \<and>
          chap (pages ! k) =
            (if last (findall page_num_pattern ([''3-4 S - 12'', ''hello''] ! k)) ! 0 = ''S'' \<or>
                last (findall page_num_pattern ([''3-4 S - 12'', ''hello''] ! k)) ! 0 = ''$''
             then Supplement
             else Numeric (int (digits_val
               (last (findall page_num_pattern ([''3-4 S - 12'', ''hello''] ! k)) ! 0)))) \<and>
          chapter_page (pages ! k) =
            int (digits_val
              (last (findall page_num_pattern ([''3-4 S - 12'', ''hello''] ! k)) ! 1)))"
    by (elim exE conjE)
  have k0: "index (pages ! 0) = 0 \<and> \<not> failed (pages ! 0) \<and> chap (pages ! 0) = Supplement \<and>
            chapter_page (pages ! 0) = 12"
    using p(3) [rule_format, of 0] by (simp add: findall_example_label dv)
  have k1: "index (pages ! 1) = 1 \<and> failed (pages ! 1)"
    using p(3) [rule_format, of 1] by (simp add: findall_example_plain)
  show ?thesis
    using p(1,2) k0 k1 by (intro exI [of _ pages]) simp
qed

text \<open>
  The claim as the specification words it fails on a label that \<open>int\<close> does not
  convert: on a page whose text is 4301 digits, a hyphen and a digit the pass raises
  ValueError, and the page has no entry.
\<close>

theorem label_longer_than_int_converts:
  "create_initial_page_list [Some (replicate 4301 (CHR ''1'') @ ''-1'')] = Inl ValueError"
proof -
  have "replicate 4301 (CHR ''1'') \<noteq> []"
    by simp
  moreover have "\<forall>c\<in>set (replicate 4301 (CHR ''1'')). is_digit c"
    by (simp add: is_digit_def)
  moreover have "int_max_str_digits < length (replicate 4301 (CHR ''1''))"
    by (simp add: int_max_str_digits_def)
  ultimately show ?thesis
    unfolding create_initial_page_list_def by (rule create_pages_long_label)
qed

text \<open>
  Claim C8, as the source has it. When the text pass returns, and when the OCR pass
  returns after it, every classified page has a chapter that is a non-negative integer
  or the supplement, and a chapter page that is a non-negative integer. The manual
  corrections check no range: every page of their result is a page of their input or
  holds, unchanged, the chapter and chapter page that a correction names for it.
\<close>

theorem classified_labels_nonnegative:
  "(create_initial_page_list doc = Inr pages \<longrightarrow>
      (\<forall>p\<in>set pages. \<not> failed p \<longrightarrow>
         (case chap p of Numeric n \<Rightarrow> 0 \<le> n | Supplement \<Rightarrow> True) \<and> 0 \<le> chapter_page p) \<and>
      (ocr_failed_pages has_ocr ocr pages = Inr ocr_done \<longrightarrow>
         (\<forall>p\<in>set ocr_done. \<not> failed p \<longrightarrow>
            (case chap p of Numeric n \<Rightarrow> 0 \<le> n | Supplement \<Rightarrow> True) \<and> 0 \<le> chapter_page p))) \<and>
   (manual_page_adjustments adj init_pages = Inr adjusted \<longrightarrow>
      (\<forall>p\<in>set adjusted. p \<in> set init_pages \<or>
         (\<exists>key val c cp. (key, val) \<in> set adj \<and> py_int_str key = Inr (index p + 1) \<and>
            subscript val 0 = Inr c \<and> subscript val 1 = Inr cp \<and>
            convert_chapter c = Inr (chap p) \<and> as_int cp = Some (chapter_page p) \<and>
            \<not> failed p)))"
proof (intro conjI impI)
  assume c: "create_initial_page_list doc = Inr pages"
  then show a: "\<forall>p\<in>set pages. \<not> failed p \<longrightarrow>
         (case chap p of Numeric n \<Rightarrow> 0 \<le> n | Supplement \<Rightarrow> True) \<and> 0 \<le> chapter_page p"
    using create_pages_nonneg [of 0 doc "[]" pages]
    by (auto simp: create_initial_page_list_def)
  assume o: "ocr_failed_pages has_ocr ocr pages = Inr ocr_done"
  show "\<forall>p\<in>set ocr_done. \<not> failed p \<longrightarrow>
         (case chap p of Numeric n \<Rightarrow> 0 \<le> n | Supplement \<Rightarrow> True) \<and> 0 \<le> chapter_page p"
  proof (cases has_ocr)
    case True
    with o have "ocr_pages ocr pages = Inr ocr_done"
      by (simp add: ocr_failed_pages_def)
    from ocr_pages_nonneg [OF this] a show ?thesis by blast
  next
    case False
    with o have "ocr_done = pages"
      by (simp add: ocr_failed_pages_def)
    with a show ?thesis by simp
  qed
next
  assume "manual_page_adjustments adj init_pages = Inr adjusted"
  then show "\<forall>p\<in>set adjusted. p \<in> set init_pages \<or>
         (\<exists>key val c cp. (key, val) \<in> set adj \<and> py_int_str key = Inr (index p + 1) \<and>
            subscript val 0 = Inr c \<and> subscript val 1 = Inr cp \<and>
            convert_chapter c = Inr (chap p) \<and> as_int cp = Some (chapter_page p) \<and>
            \<not> failed p)"
    by (rule manual_pages)
qed

theorem classified_labels_nonnegative_witness:
  "create_initial_page_list [Some ''0-0'', Some ''x''] =
     Inr [\<lparr>index = 0, failed = False, chap = Numeric 0, chapter_page = 0\<rparr>,
          \<lparr>index = 1, failed = True, chap = Numeric 0, chapter_page = 0\<rparr>] \<and>
   ocr_failed_pages True (\<lambda>i. ''S-7'')
       [\<lparr>index = 0, failed = False, chap = Numeric 0, chapter_page = 0\<rparr>,
        \<lparr>index = 1, failed = True, chap = Numeric 0, chapter_page = 0\<rparr>] =
     Inr [\<lparr>index = 0, failed = False, chap = Numeric 0, chapter_page = 0\<rparr>,
          \<lparr>index = 1, failed = False, chap = Supplement, chapter_page = 7\<rparr>] \<and>
   manual_page_adjustments [(''1'', JList [JInt (- 3), JInt (- 7)])]
       [\<lparr>index = 0, failed = True, chap = Numeric 0, chapter_page = 0\<rparr>] =
     Inr [\<lparr>index = 0, failed = False, chap = Numeric (- 3), chapter_page = - 7\<rparr>] \<and>
   list_all (\<lambda>p. \<not> failed p \<longrightarrow>
       (case chap p of Numeric n \<Rightarrow> 0 \<le> n | Supplement \<Rightarrow> True) \<and> 0 \<le> chapter_page p)
     [\<lparr>index = 0, failed = False, chap = Numeric 0, chapter_page = 0\<rparr>,
      \<lparr>index = 1, failed = False, chap = Supplement, chapter_page = 7\<rparr>] \<and>
   (\<exists>key val c cp. (key, val) \<in> set [(''1'', JList [JInt (- 3), JInt (- 7)])] \<and>
      py_int_str key = Inr 1 \<and> subscript val 0 = Inr c \<and> subscript val 1 = Inr cp \<and>
      convert_chapter c = Inr (Numeric (- 3)) \<and> as_int cp = Some (- 7))"
proof -
  have h1: "create_initial_page_list [Some ''0-0'', Some ''x''] =
     Inr [\<lparr>index = 0, failed = False, chap = Numeric 0, chapter_page = 0\<rparr>,
          \<lparr>index = 1, failed = True, chap = Numeric 0, chapter_page = 0\<rparr>]"
    by code_simp
  have h2: "ocr_failed_pages True (\<lambda>i. ''S-7'')
       [\<lparr>index = 0, failed = False, chap = Numeric 0, chapter_page = 0\<rparr>,
        \<lparr>index = 1, failed = True, chap = Numeric 0, chapter_page = 0\<rparr>] =
     Inr [\<lparr>index = 0, failed = False, chap = Numeric 0, chapter_page = 0\<rparr>,
          \<lparr>index = 1, failed = False, chap = Supplement, chapter_page = 7\<rparr>]"
    by code_simp
  have h3: "manual_page_adjustments [(''1'', JList [JInt (- 3), JInt (- 7)])]
       [\<lparr>index = 0, failed = True, chap = Numeric 0, chapter_page = 0\<rparr>] =
     Inr [\<lparr>index = 0, failed = False, chap = Numeric (- 3), chapter_page = - 7\<rparr>]"
    by code_simp
  note t = classified_labels_nonnegative [where doc = "[Some ''0-0'', Some ''x'']"
      and pages = "[\<lparr>index = 0, failed = False, chap = Numeric 0, chapter_page = 0\<rparr>,
          \<lparr>index = 1, failed = True, chap = Numeric 0, chapter_page = 0\<rparr>]"
      and has_ocr = True and ocr = "\<lambda>i. ''S-7''"
      and ocr_done = "[\<lparr>index = 0, failed = False, chap = Numeric 0, chapter_page = 0\<rparr>,
          \<lparr>index = 1, failed = False, chap = Supplement, chapter_page = 7\<rparr>]"
      and adj = "[(''1'', JList [JInt (- 3), JInt (- 7)])]"
      and init_pages = "[\<lparr>index = 0, failed = True, chap = Numeric 0, chapter_page = 0\<rparr>]"
      and adjusted = "[\<lparr>index = 0, failed = False, chap = Numeric (- 3), chapter_page = - 7\<rparr>]"]
  have a: "list_all (\<lambda>p. \<not> failed p \<longrightarrow>
       (case chap p of Numeric n \<Rightarrow> 0 \<le> n | Supplement \<Rightarrow> True) \<and> 0 \<le> chapter_page p)
     [\<lparr>index = 0, failed = False, chap = Numeric 0, chapter_page = 0\<rparr>,
      \<lparr>index = 1, failed = False, chap = Supplement, chapter_page = 7\<rparr>]"
    using t [THEN conjunct1, THEN mp, OF h1, THEN conjunct2, THEN mp, OF h2]
    by (simp only: list_all_iff)
  have b: "\<exists>key val c cp. (key, val) \<in> set [(''1'', JList [JInt (- 3), JInt (- 7)])] \<and>
      py_int_str key = Inr 1 \<and> subscript val 0 = Inr c \<and> subscript val 1 = Inr cp \<and>
      convert_chapter c = Inr (Numeric (- 3)) \<and> as_int cp = Some (- 7)"
    using t [THEN conjunct2, THEN mp, OF h3] by simp
  show ?thesis
    using h1 h2 h3 a b by (intro conjI)
qed

text \<open>
  The claim as the specification words it fails: the text \<open>0-0\<close> classifies a page with
  chapter 0 and chapter page 0, and a manual correction \<open>[-3, -7]\<close> is stored as it is.
\<close>

theorem zero_and_negative_labels:
  "create_initial_page_list [Some ''0-0''] =
     Inr [\<lparr>index = 0, failed = False, chap = Numeric 0, chapter_page = 0\<rparr>] \<and>
   manual_page_adjustments [(''1'', JList [JInt (- 3), JInt (- 7)])]
       [\<lparr>index = 0, failed = True, chap = Numeric 0, chapter_page = 0\<rparr>] =
     Inr [\<lparr>index = 0, failed = False, chap = Numeric (- 3), chapter_page = - 7\<rparr>]"
  by code_simp

end
